theory Spec2Isabelle
  imports Main "HOL-Library.Multiset"
begin

section \<open>Data model (bot.js, lines 53-57)\<close>

text \<open>
  Discord user ids are strings. A team member entry is \<open>{ userId, timestamp }\<close>; a team
  leader entry is \<open>{ userId, additionalNeeded, crew: [userId, ...], timestamp }\<close>, so the
  leader record extends the member record by the two extra fields. \<open>additionalNeeded\<close> is
  a JavaScript number that only ever holds integers here (it comes from \<open>parseInt\<close> and is
  decremented by one), hence \<open>int\<close>.
\<close>

type_synonym userId = string

record member =
  userId :: userId
  timestamp :: nat

record leader = member +
  additionalNeeded :: int
  crew :: "userId list"

text \<open>
  The effects of the program on the outside world, in program order: each successful
  \<open>redisClient.set\<close> with the value written, a \<open>set\<close> that threw (caught at line 76), each
  call of \<open>createTeamThread\<close> with the leader entry handed over, each
  \<open>teamLeaders.splice(i, 1)\<close> with the entry it removed, and each reply shown to a user
  (title or content of the message).
\<close>

datatype event =
    RedisSetLeaders "leader list"
  | RedisSetMembers "member list"
  | RedisError
  | CreateTeamThread leader
  | Splice leader
  | Reply userId string

text \<open>
  The module-level variables \<open>teamLeaders\<close> and \<open>teamMembers\<close>, the two Redis keys
  \<open>queue:teamLeaders\<close> and \<open>queue:teamMembers\<close> (\<open>None\<close>: key absent; the JSON text is
  identified with the value it encodes), and the history of effects.
\<close>

record world =
  teamLeaders :: "leader list"
  teamMembers :: "member list"
  redisLeaders :: "leader list option"
  redisMembers :: "member list option"
  history :: "event list"

definition emit :: "event list \<Rightarrow> world \<Rightarrow> world" where
  "emit es w = w\<lparr>history := history w @ es\<rparr>"

section \<open>Durable store (lines 59-79)\<close>

text \<open>
  \<open>updateQueuesInRedis\<close> awaits two separate \<open>set\<close> calls inside one \<open>try\<close>. Either call
  may throw; the first throw skips what follows and is only logged.
\<close>

datatype redis_outcome = BothSetsOk | LeadersSetThrows | MembersSetThrows

definition updateQueuesInRedis :: "redis_outcome \<Rightarrow> world \<Rightarrow> world" where
  "updateQueuesInRedis out w =
     (case out of
        LeadersSetThrows \<Rightarrow> emit [RedisError] w
      | MembersSetThrows \<Rightarrow>
          emit [RedisSetLeaders (teamLeaders w), RedisError]
            (w\<lparr>redisLeaders := Some (teamLeaders w)\<rparr>)
      | BothSetsOk \<Rightarrow>
          emit [RedisSetLeaders (teamLeaders w), RedisSetMembers (teamMembers w)]
            (w\<lparr>redisLeaders := Some (teamLeaders w), redisMembers := Some (teamMembers w)\<rparr>))"

definition loadQueues :: "world \<Rightarrow> world" where
  "loadQueues w =
     w\<lparr>teamLeaders := (case redisLeaders w of Some ls \<Rightarrow> ls | None \<Rightarrow> []),
       teamMembers := (case redisMembers w of Some ms \<Rightarrow> ms | None \<Rightarrow> [])\<rparr>"

section \<open>Matching (lines 177-197)\<close>

text \<open>
  The inner \<open>while\<close> loop of \<open>tryMatching\<close> for one leader: as long as the leader still
  needs somebody and the member queue is not empty, \<open>shift\<close> the oldest member; a member
  with the leader's own id is dropped (\<open>continue\<close>), any other one joins the crew.
  Queue entries are objects, so the \<open>if (!member) break\<close> of line 183 never fires.
\<close>

fun recruit :: "leader \<Rightarrow> member list \<Rightarrow> leader \<times> member list" where
  "recruit l [] = (l, [])"
| "recruit l (m # ms) =
     (if additionalNeeded l > 0 then
        (if userId m = userId l then recruit l ms
         else recruit (l\<lparr>additionalNeeded := additionalNeeded l - 1,
                         crew := crew l @ [userId m]\<rparr>) ms)
      else (l, m # ms))"

definition createTeamThread :: "leader \<Rightarrow> world \<Rightarrow> world" where
  "createTeamThread l w = emit [CreateTeamThread l] w"

definition splice :: "nat \<Rightarrow> world \<Rightarrow> world" where
  "splice i w =
     emit [Splice (teamLeaders w ! i)]
       (w\<lparr>teamLeaders := take i (teamLeaders w) @ drop (Suc i) (teamLeaders w)\<rparr>)"

text \<open>
  The \<open>for\<close> loop over the index \<open>i\<close>. After \<open>splice\<close> the source decrements \<open>i\<close> and the
  loop header increments it again, so the next iteration looks at the same index.
\<close>

function tryMatching_loop :: "nat \<Rightarrow> world \<Rightarrow> world" where
  "tryMatching_loop i w =
     (if i < length (teamLeaders w) then
        (case recruit (teamLeaders w ! i) (teamMembers w) of
           (l, ms) \<Rightarrow>
             (let w1 = w\<lparr>teamLeaders := (teamLeaders w)[i := l], teamMembers := ms\<rparr>
              in if additionalNeeded l = 0
                 then tryMatching_loop i (splice i (createTeamThread l w1))
                 else tryMatching_loop (i + 1) w1))
      else w)"
  by pat_completeness auto
termination
  by (relation "measure (\<lambda>(i, w). length (teamLeaders w) - i)")
     (auto simp: splice_def createTeamThread_def emit_def)

definition tryMatching :: "redis_outcome \<Rightarrow> world \<Rightarrow> world" where
  "tryMatching out w = updateQueuesInRedis out (tryMatching_loop 0 w)"

text \<open>
  The leaders in queue order, each as its inner loop leaves it, with the member queue
  that remains: the \<open>for\<close> loop without the removal of completed entries. Used to state
  and prove what the index loop computes.
\<close>

fun sweep :: "leader list \<Rightarrow> member list \<Rightarrow> leader list \<times> member list" where
  "sweep [] ms = ([], ms)"
| "sweep (l # ls) ms =
     (case recruit l ms of
        (l', ms') \<Rightarrow> (case sweep ls ms' of (ls', ms'') \<Rightarrow> (l' # ls', ms'')))"

text \<open>The leader entries handed to \<open>createTeamThread\<close> in a history, in call order.\<close>

fun handedOver :: "event list \<Rightarrow> leader list" where
  "handedOver [] = []"
| "handedOver (CreateTeamThread l # es) = l # handedOver es"
| "handedOver (_ # es) = handedOver es"

section \<open>Selection parsing (line 500)\<close>

text \<open>
  \<open>parseInt(selectedValue, 10)\<close> on an ASCII string: leading white space is skipped, one
  sign is read, then the longest run of decimal digits; no digit gives \<open>NaN\<close> (\<open>None\<close>).
  With radix 10 given, no \<open>0x\<close> prefix is recognised. The result is exact up to
  \<open>2^53\<close>; longer digit runs, which JavaScript rounds, are outside this model.
  \<open>interaction.values[0]\<close> of an empty array is \<open>undefined\<close>, which parses to \<open>NaN\<close>.
\<close>

definition isWhiteSpace :: "char \<Rightarrow> bool" where
  "isWhiteSpace c \<longleftrightarrow> c \<in> set [CHR 0x09, CHR 0x0A, CHR 0x0B, CHR 0x0C, CHR 0x0D, CHR 0x20]"

definition isDigit :: "char \<Rightarrow> bool" where
  "isDigit c \<longleftrightarrow> c \<in> set ''0123456789''"

definition digitValue :: "char \<Rightarrow> int" where
  "digitValue c = int (of_char c) - 48"

definition digitsValue :: "string \<Rightarrow> int" where
  "digitsValue ds = foldl (\<lambda>a c. 10 * a + digitValue c) 0 ds"

definition parseInt :: "string \<Rightarrow> int option" where
  "parseInt s =
     (let s1 = dropWhile isWhiteSpace s;
          neg = (case s1 of c # _ \<Rightarrow> c = CHR ''-'' | [] \<Rightarrow> False);
          s2 = (case s1 of c # r \<Rightarrow> if c = CHR ''+'' \<or> c = CHR ''-'' then r else s1 | [] \<Rightarrow> s1);
          ds = takeWhile isDigit s2
      in if ds = [] then None
         else Some (if neg then - digitsValue ds else digitsValue ds))"

definition selectedNumber :: "string list \<Rightarrow> int option" where
  "selectedNumber vs = (case vs of [] \<Rightarrow> None | v # _ \<Rightarrow> parseInt v)"

section \<open>Interaction handlers (lines 262-524)\<close>

text \<open>
  Each handler is run to completion before the next interaction is looked at, and the
  calls into Discord (\<open>interaction.reply\<close>, \<open>interaction.update\<close>, the logging channel)
  are taken to return; the source wraps none of the replies in a \<open>try\<close>, so a rejected
  reply would end the handler at that line. Each reply is recorded by its title or the
  fixed part of its content.
\<close>

definition findLeader :: "userId \<Rightarrow> world \<Rightarrow> leader option" where
  "findLeader u w = find (\<lambda>entry. userId entry = u) (teamLeaders w)"

definition findMember :: "userId \<Rightarrow> world \<Rightarrow> member option" where
  "findMember u w = find (\<lambda>entry. userId entry = u) (teamMembers w)"

definition pushMember :: "userId \<Rightarrow> nat \<Rightarrow> world \<Rightarrow> world" where
  "pushMember u now w = w\<lparr>teamMembers := teamMembers w @ [\<lparr>userId = u, timestamp = now\<rparr>]\<rparr>"

text \<open>
  \<open>handleLookingForTeam\<close> (lines 390-433): a queued leader is asked to confirm a switch, a
  queued member is told so, anybody else is appended to the member queue; then the
  queues are stored and matching runs. \<open>o1\<close> is the outcome of the handler's own store
  call, \<open>o2\<close> that of the call at the end of \<open>tryMatching\<close>.
\<close>

definition handleLookingForTeam ::
  "redis_outcome \<Rightarrow> redis_outcome \<Rightarrow> nat \<Rightarrow> userId \<Rightarrow> world \<Rightarrow> world" where
  "handleLookingForTeam o1 o2 now u w =
     (case findLeader u w of
        Some leaderEntry \<Rightarrow> emit [Reply u ''switch allegiance?''] w
      | None \<Rightarrow>
          (case findMember u w of
             Some memberEntry \<Rightarrow> emit [Reply u ''already registered''] w
           | None \<Rightarrow>
               tryMatching o2
                 (updateQueuesInRedis o1
                    (pushMember u now (emit [Reply u ''team join request received''] w)))))"

text \<open>\<open>handleLookingForMembersStart\<close> (lines 435-495) only answers; the queues stay.\<close>

definition handleLookingForMembersStart :: "userId \<Rightarrow> world \<Rightarrow> world" where
  "handleLookingForMembersStart u w =
     (case findMember u w of
        Some memberEntry \<Rightarrow> emit [Reply u ''switch allegiance?''] w
      | None \<Rightarrow>
          (case findLeader u w of
             Some leaderEntry \<Rightarrow> emit [Reply u ''leader status''] w
           | None \<Rightarrow> emit [Reply u ''leader setup''] w))"

text \<open>
  The \<open>switch_to_team\<close> button (lines 284-295): the two assignments of lines 285-286,
  then store, answer, match.
\<close>

definition leaveLeaderRole :: "nat \<Rightarrow> userId \<Rightarrow> world \<Rightarrow> world" where
  "leaveLeaderRole now u w =
     pushMember u now (w\<lparr>teamLeaders := filter (\<lambda>entry. userId entry \<noteq> u) (teamLeaders w)\<rparr>)"

definition switch_to_team ::
  "redis_outcome \<Rightarrow> redis_outcome \<Rightarrow> nat \<Rightarrow> userId \<Rightarrow> world \<Rightarrow> world" where
  "switch_to_team o1 o2 now u w =
     tryMatching o2
       (emit [Reply u ''allegiance switched'']
          (updateQueuesInRedis o1 (leaveLeaderRole now u w)))"

text \<open>The \<open>switch_to_leader\<close> button (lines 296-319): line 297, then the select menu.\<close>

definition switch_to_leader :: "userId \<Rightarrow> world \<Rightarrow> world" where
  "switch_to_leader u w =
     emit [Reply u ''team leader setup'']
       (w\<lparr>teamMembers := filter (\<lambda>entry. userId entry \<noteq> u) (teamMembers w)\<rparr>)"

text \<open>
  \<open>handleMemberCountSelect\<close> (lines 497-524). \<open>registerNeed\<close> is lines 505-517: the first
  leader entry of the user gets the new number, or a fresh entry is appended.
\<close>

fun setNeed :: "userId \<Rightarrow> int \<Rightarrow> leader list \<Rightarrow> leader list" where
  "setNeed u n [] = []"
| "setNeed u n (e # es) =
     (if userId e = u then e\<lparr>additionalNeeded := n\<rparr> # es else e # setNeed u n es)"

definition registerNeed :: "nat \<Rightarrow> userId \<Rightarrow> int \<Rightarrow> world \<Rightarrow> world" where
  "registerNeed now u n w =
     (case findLeader u w of
        Some leaderEntry \<Rightarrow> w\<lparr>teamLeaders := setNeed u n (teamLeaders w)\<rparr>
      | None \<Rightarrow>
          w\<lparr>teamLeaders := teamLeaders w @
               [\<lparr>userId = u, timestamp = now, additionalNeeded = n, crew = []\<rparr>]\<rparr>)"

definition handleMemberCountSelect ::
  "redis_outcome \<Rightarrow> redis_outcome \<Rightarrow> nat \<Rightarrow> userId \<Rightarrow> string list \<Rightarrow> world \<Rightarrow> world" where
  "handleMemberCountSelect o1 o2 now u vs w =
     (case selectedNumber vs of
        None \<Rightarrow> emit [Reply u ''invalid selection.''] w
      | Some n \<Rightarrow>
          tryMatching o2
            (emit [Reply u ''you are now a team leader.'']
               (updateQueuesInRedis o1 (registerNeed now u n w))))"

text \<open>The \<open>/admin\<close> command (lines 351-382); \<open>admin\<close> is \<open>ADMIN_USER_ID\<close>.\<close>

definition adminCommand ::
  "userId \<Rightarrow> redis_outcome \<Rightarrow> redis_outcome \<Rightarrow> userId \<Rightarrow> string \<Rightarrow> world \<Rightarrow> world" where
  "adminCommand admin o1 o2 u sub w =
     (if u \<noteq> admin then emit [Reply u ''you are not authorized to use admin commands.''] w
      else if sub = ''panel'' then emit [Reply u ''admin panel''] w
      else if sub = ''clear'' then
        emit [Reply u ''all queues have been cleared.'']
          (updateQueuesInRedis o1 (w\<lparr>teamLeaders := [], teamMembers := []\<rparr>))
      else if sub = ''list'' then emit [Reply u ''queue details''] w
      else if sub = ''match'' then emit [Reply u ''force matching executed.''] (tryMatching o2 w)
      else w)"

text \<open>
  The \<open>interactionCreate\<close> listener (lines 262-388). The buttons \<open>confirm_team\<close> and
  \<open>close_thread\<close> act on a thread only and leave the world of this model as it is.
\<close>

datatype interaction =
    Button string userId
  | Command string string userId
  | SelectMenu string userId "string list"

definition interactionCreate ::
  "userId \<Rightarrow> redis_outcome \<Rightarrow> redis_outcome \<Rightarrow> nat \<Rightarrow> interaction \<Rightarrow> world \<Rightarrow> world" where
  "interactionCreate admin o1 o2 now i w =
     (case i of
        Button customId u \<Rightarrow>
          if customId = ''looking_for_team'' then handleLookingForTeam o1 o2 now u w
          else if customId = ''looking_for_members_start'' then handleLookingForMembersStart u w
          else if customId = ''confirm_team'' then w
          else if customId = ''close_thread'' then w
          else if customId = ''switch_to_team'' then switch_to_team o1 o2 now u w
          else if customId = ''switch_to_leader'' then switch_to_leader u w
          else if customId = ''cancel_switch'' then emit [Reply u ''switch cancelled''] w
          else if customId = ''update_recruitment''
            then emit [Reply u ''update team leader recruitment''] w
          else w
      | Command name sub u \<Rightarrow>
          if name = ''admin'' then adminCommand admin o1 o2 u sub w else w
      | SelectMenu customId u vs \<Rightarrow>
          if customId = ''select_member_count'' then handleMemberCountSelect o1 o2 now u vs w
          else w)"

text \<open>
  A run of the bot: interactions handled one after the other, each to completion, each
  with its own clock reading and store outcomes.
\<close>

type_synonym input = "redis_outcome \<times> redis_outcome \<times> nat \<times> interaction"

fun run :: "userId \<Rightarrow> input list \<Rightarrow> world \<Rightarrow> world" where
  "run admin [] w = w"
| "run admin ((o1, o2, now, i) # is) w = run admin is (interactionCreate admin o1 o2 now i w)"

definition start :: world where
  "start = \<lparr>teamLeaders = [], teamMembers = [], redisLeaders = None, redisMembers = None,
            history = []\<rparr>"

text \<open>
  What the index loop started at \<open>i\<close> computes, in terms of \<open>sweep\<close>: entries before \<open>i\<close>
  stay, the swept rest keeps the entries that still need somebody, and every entry
  whose need is zero is handed to \<open>createTeamThread\<close> and then spliced out.
\<close>

definition afterSweep :: "nat \<Rightarrow> world \<Rightarrow> world" where
  "afterSweep i w =
     (case sweep (drop i (teamLeaders w)) (teamMembers w) of
        (ls', ms') \<Rightarrow>
          w\<lparr>teamLeaders := take i (teamLeaders w) @ filter (\<lambda>l. additionalNeeded l \<noteq> 0) ls',
            teamMembers := ms',
            history := history w @
              concat (map (\<lambda>l. [CreateTeamThread l, Splice l])
                (filter (\<lambda>l. additionalNeeded l = 0) ls'))\<rparr>)"

section \<open>Sample queues\<close>

text \<open>Fresh entries and a world holding given queues, for the concrete runs below.\<close>

definition newLeader :: "userId \<Rightarrow> int \<Rightarrow> leader" where
  "newLeader u n = \<lparr>userId = u, timestamp = 0, additionalNeeded = n, crew = []\<rparr>"

definition newMember :: "userId \<Rightarrow> member" where
  "newMember u = \<lparr>userId = u, timestamp = 0\<rparr>"

definition queues :: "leader list \<Rightarrow> member list \<Rightarrow> world" where
  "queues ls ms = \<lparr>teamLeaders = ls, teamMembers = ms, redisLeaders = None,
     redisMembers = None, history = []\<rparr>"

text \<open>
  A leader who asked for two, already holds one recruit and still needs one; a user who
  opens the leader menu, joins as a member and then uses the menu; a member who
  confirms the switch to leader and never picks a number.
\<close>

definition partialTeam :: world where
  "partialTeam = queues [\<lparr>userId = ''L'', timestamp = 1, additionalNeeded = 1, crew = [''M1'']\<rparr>] []"


definition abandonedSwitchRun :: "input list" where
  "abandonedSwitchRun =
     [(BothSetsOk, BothSetsOk, 1, Button ''looking_for_team'' ''U''),
      (BothSetsOk, BothSetsOk, 2, Button ''looking_for_members_start'' ''U''),
      (BothSetsOk, BothSetsOk, 3, Button ''switch_to_leader'' ''U'')]"


text \<open>
  The queues as every completed interaction leaves them: each queued leader still needs
  somebody, one of the two queues is empty, and no two leader entries share a user id.
\<close>

definition settled :: "world \<Rightarrow> bool" where
  "settled w \<longleftrightarrow>
     list_all (\<lambda>l. 0 < additionalNeeded l) (teamLeaders w) \<and>
     (teamLeaders w = [] \<or> teamMembers w = []) \<and>
     distinct (map userId (teamLeaders w))"



text \<open>Redis holds exactly the two queues in memory.\<close>

definition stored :: "world \<Rightarrow> bool" where
  "stored w \<longleftrightarrow> redisLeaders w = Some (teamLeaders w) \<and> redisMembers w = Some (teamMembers w)"

section \<open>The index loop and the sweep\<close>

declare tryMatching_loop.simps [simp del]

lemma loop_stop: "\<not> i < length (teamLeaders w) \<Longrightarrow> tryMatching_loop i w = w"
  by (simp add: tryMatching_loop.simps[of i w])

lemma loop_done:
  "i < length (teamLeaders w) \<Longrightarrow> recruit (teamLeaders w ! i) (teamMembers w) = (l, ms) \<Longrightarrow>
   additionalNeeded l = 0 \<Longrightarrow>
   tryMatching_loop i w =
     tryMatching_loop i (splice i (createTeamThread l
        (w\<lparr>teamLeaders := (teamLeaders w)[i := l], teamMembers := ms\<rparr>)))"
  by (simp add: tryMatching_loop.simps[of i w])

lemma loop_next:
  "i < length (teamLeaders w) \<Longrightarrow> recruit (teamLeaders w ! i) (teamMembers w) = (l, ms) \<Longrightarrow>
   additionalNeeded l \<noteq> 0 \<Longrightarrow>
   tryMatching_loop i w =
     tryMatching_loop (Suc i) (w\<lparr>teamLeaders := (teamLeaders w)[i := l], teamMembers := ms\<rparr>)"
  by (simp add: tryMatching_loop.simps[of i w])

lemma loop_sweep: "tryMatching_loop i w = afterSweep i w"
proof (induction i w rule: tryMatching_loop.induct)
  case (1 i w)
  show ?case
  proof (cases "i < length (teamLeaders w)")
    case False
    then show ?thesis by (simp add: loop_stop afterSweep_def)
  next
    case True
    obtain l ms where r: "recruit (teamLeaders w ! i) (teamMembers w) = (l, ms)"
      by (cases "recruit (teamLeaders w ! i) (teamMembers w)")
    obtain ls' ms' where s: "sweep (drop (Suc i) (teamLeaders w)) ms = (ls', ms')"
      by (cases "sweep (drop (Suc i) (teamLeaders w)) ms")
    have d: "drop i (teamLeaders w) = teamLeaders w ! i # drop (Suc i) (teamLeaders w)"
      using True by (simp add: Cons_nth_drop_Suc)
    define w1 where "w1 = w\<lparr>teamLeaders := (teamLeaders w)[i := l], teamMembers := ms\<rparr>"
    have rhs: "afterSweep i w =
        w\<lparr>teamLeaders := take i (teamLeaders w) @ filter (\<lambda>l. additionalNeeded l \<noteq> 0) (l # ls'),
            teamMembers := ms',
            history := history w @
              concat (map (\<lambda>l. [CreateTeamThread l, Splice l])
                (filter (\<lambda>l. additionalNeeded l = 0) (l # ls')))\<rparr>"
      by (simp add: afterSweep_def d r s)
    show ?thesis
    proof (cases "additionalNeeded l = 0")
      case z: True
      let ?w2 = "splice i (createTeamThread l w1)"
      have "tryMatching_loop i w = tryMatching_loop i ?w2"
        using loop_done[OF True r z] by (simp add: w1_def)
      also have "\<dots> = afterSweep i ?w2"
        using "1.IH"(1)[OF True r[symmetric] w1_def z] .
      also have "\<dots> = afterSweep i w"
        unfolding rhs using True z
        by (simp add: afterSweep_def splice_def createTeamThread_def emit_def w1_def s
            drop_update_cancel take_update_cancel)
      finally show ?thesis .
    next
      case nz: False
      have "tryMatching_loop i w = tryMatching_loop (i + 1) w1"
        using loop_next[OF True r nz] by (simp add: w1_def)
      also have "\<dots> = afterSweep (i + 1) w1"
        using "1.IH"(2)[OF True r[symmetric] w1_def nz] .
      also have "\<dots> = afterSweep i w"
        unfolding rhs using True nz
        by (simp add: afterSweep_def w1_def s take_Suc_conv_app_nth)
      finally show ?thesis .
    qed
  qed
qed

lemma recruit_spec:
  "recruit l ms = (l', ms') \<Longrightarrow>
   \<exists>seg. ms = seg @ ms' \<and>
     userId l' = userId l \<and> timestamp l' = timestamp l \<and>
     crew l' = crew l @ filter (\<lambda>u. u \<noteq> userId l) (map userId seg) \<and>
     additionalNeeded l' =
       additionalNeeded l - int (length (filter (\<lambda>u. u \<noteq> userId l) (map userId seg))) \<and>
     (0 \<le> additionalNeeded l \<longrightarrow> 0 \<le> additionalNeeded l') \<and>
     (0 < additionalNeeded l' \<longrightarrow> ms' = [])"
proof (induction l ms arbitrary: l' ms' rule: recruit.induct)
  case (1 l)
  then show ?case by auto
next
  case (2 l m ms)
  show ?case
  proof (cases "additionalNeeded l > 0")
    case False
    with 2(3) show ?thesis by (intro exI[of _ "[]"]) auto
  next
    case pos: True
    show ?thesis
    proof (cases "userId m = userId l")
      case True
      with pos 2(3) have "recruit l ms = (l', ms')" by simp
      from 2(1)[OF pos True this] obtain seg where
        "ms = seg @ ms'" "userId l' = userId l" "timestamp l' = timestamp l"
        "crew l' = crew l @ filter (\<lambda>u. u \<noteq> userId l) (map userId seg)"
        "additionalNeeded l' =
           additionalNeeded l - int (length (filter (\<lambda>u. u \<noteq> userId l) (map userId seg)))"
        "0 \<le> additionalNeeded l \<longrightarrow> 0 \<le> additionalNeeded l'"
        "0 < additionalNeeded l' \<longrightarrow> ms' = []" by blast
      with True show ?thesis by (intro exI[of _ "m # seg"]) simp
    next
      case False
      let ?l1 = "l\<lparr>additionalNeeded := additionalNeeded l - 1, crew := crew l @ [userId m]\<rparr>"
      from False pos 2(3) have "recruit ?l1 ms = (l', ms')" by simp
      from 2(2)[OF pos False this] obtain seg where
        "ms = seg @ ms'" "userId l' = userId ?l1" "timestamp l' = timestamp ?l1"
        "crew l' = crew ?l1 @ filter (\<lambda>u. u \<noteq> userId ?l1) (map userId seg)"
        "additionalNeeded l' =
           additionalNeeded ?l1 - int (length (filter (\<lambda>u. u \<noteq> userId ?l1) (map userId seg)))"
        "0 \<le> additionalNeeded ?l1 \<longrightarrow> 0 \<le> additionalNeeded l'"
        "0 < additionalNeeded l' \<longrightarrow> ms' = []" by blast
      with False pos show ?thesis by (intro exI[of _ "m # seg"]) simp
    qed
  qed
qed

lemma recruit_Nil [simp]: "recruit l [] = (l, [])"
  by simp

lemma sweep_Nil [simp]: "sweep ls [] = (ls, [])"
  by (induction ls) auto

lemma sweep_spec:
  "sweep ls ms = (ls', ms') \<Longrightarrow>
   \<exists>segs. length ls' = length ls \<and> length segs = length ls \<and> concat segs @ ms' = ms \<and>
     (\<forall>i < length ls.
        userId (ls' ! i) = userId (ls ! i) \<and> timestamp (ls' ! i) = timestamp (ls ! i) \<and>
        crew (ls' ! i) =
          crew (ls ! i) @ filter (\<lambda>u. u \<noteq> userId (ls ! i)) (map userId (segs ! i)) \<and>
        additionalNeeded (ls' ! i) =
          additionalNeeded (ls ! i) -
            int (length (filter (\<lambda>u. u \<noteq> userId (ls ! i)) (map userId (segs ! i)))) \<and>
        (0 \<le> additionalNeeded (ls ! i) \<longrightarrow> 0 \<le> additionalNeeded (ls' ! i)) \<and>
        (0 < additionalNeeded (ls' ! i) \<longrightarrow> ms' = []))"
proof (induction ls arbitrary: ms ls' ms')
  case Nil
  then show ?case by auto
next
  case (Cons l ls)
  obtain l1 ms1 where r: "recruit l ms = (l1, ms1)" by (cases "recruit l ms")
  obtain ls2 ms2 where s: "sweep ls ms1 = (ls2, ms2)" by (cases "sweep ls ms1")
  from Cons.prems r s have eq: "ls' = l1 # ls2" "ms' = ms2" by auto
  from recruit_spec[OF r] obtain seg where seg:
    "ms = seg @ ms1" "userId l1 = userId l" "timestamp l1 = timestamp l"
    "crew l1 = crew l @ filter (\<lambda>u. u \<noteq> userId l) (map userId seg)"
    "additionalNeeded l1 =
       additionalNeeded l - int (length (filter (\<lambda>u. u \<noteq> userId l) (map userId seg)))"
    "0 \<le> additionalNeeded l \<longrightarrow> 0 \<le> additionalNeeded l1"
    "0 < additionalNeeded l1 \<longrightarrow> ms1 = []" by blast
  from Cons.IH[OF s] obtain segs where segs:
    "length ls2 = length ls" "length segs = length ls" "concat segs @ ms2 = ms1"
    "\<forall>i < length ls.
        userId (ls2 ! i) = userId (ls ! i) \<and> timestamp (ls2 ! i) = timestamp (ls ! i) \<and>
        crew (ls2 ! i) =
          crew (ls ! i) @ filter (\<lambda>u. u \<noteq> userId (ls ! i)) (map userId (segs ! i)) \<and>
        additionalNeeded (ls2 ! i) =
          additionalNeeded (ls ! i) -
            int (length (filter (\<lambda>u. u \<noteq> userId (ls ! i)) (map userId (segs ! i)))) \<and>
        (0 \<le> additionalNeeded (ls ! i) \<longrightarrow> 0 \<le> additionalNeeded (ls2 ! i)) \<and>
        (0 < additionalNeeded (ls2 ! i) \<longrightarrow> ms2 = [])" by blast
  have last: "0 < additionalNeeded l1 \<longrightarrow> ms2 = []"
    using seg(7) segs(3) by auto
  show ?case
    unfolding eq
    apply (rule exI[of _ "seg # segs"])
    using seg segs last by (auto simp: nth_Cons split: nat.splits)
qed

section \<open>Matching: order, completion, conservation\<close>

lemma history_update [simp]:
  "teamLeaders (updateQueuesInRedis out w) = teamLeaders w"
  "teamMembers (updateQueuesInRedis out w) = teamMembers w"
  by (cases out; simp add: updateQueuesInRedis_def emit_def)+

lemma history_store:
  "history (updateQueuesInRedis out w) = history w @
     (case out of
        LeadersSetThrows \<Rightarrow> [RedisError]
      | MembersSetThrows \<Rightarrow> [RedisSetLeaders (teamLeaders w), RedisError]
      | BothSetsOk \<Rightarrow> [RedisSetLeaders (teamLeaders w), RedisSetMembers (teamMembers w)])"
  by (cases out; simp add: updateQueuesInRedis_def emit_def)

lemma handedOver_append [simp]: "handedOver (xs @ ys) = handedOver xs @ handedOver ys"
  by (induction xs rule: handedOver.induct) auto

lemma handedOver_pairs [simp]:
  "handedOver (concat (map (\<lambda>l. [CreateTeamThread l, Splice l]) ls)) = ls"
  by (induction ls) auto

lemma handedOver_store [simp]:
  "handedOver (case out of
        LeadersSetThrows \<Rightarrow> [RedisError]
      | MembersSetThrows \<Rightarrow> [RedisSetLeaders a, RedisError]
      | BothSetsOk \<Rightarrow> [RedisSetLeaders a, RedisSetMembers b]) = []"
  by (cases out) auto

lemma tryMatching_sweep:
  assumes "sweep (teamLeaders w) (teamMembers w) = (swept, ms')"
  shows "teamLeaders (tryMatching out w) = filter (\<lambda>l. additionalNeeded l \<noteq> 0) swept"
    and "teamMembers (tryMatching out w) = ms'"
    and "history (tryMatching_loop 0 w) = history w @
           concat (map (\<lambda>l. [CreateTeamThread l, Splice l])
             (filter (\<lambda>l. additionalNeeded l = 0) swept))"
    and "handedOver (drop (length (history w)) (history (tryMatching out w))) =
           filter (\<lambda>l. additionalNeeded l = 0) swept"
  using assms
  by (simp_all add: tryMatching_def loop_sweep afterSweep_def history_store)



lemma sweep_ids: "sweep ls ms = (ls', ms') \<Longrightarrow> map userId ls' = map userId ls"
proof -
  assume s: "sweep ls ms = (ls', ms')"
  from sweep_spec[OF s] obtain segs where
    "length ls' = length ls"
    "\<forall>i < length ls. userId (ls' ! i) = userId (ls ! i)" by blast
  then show ?thesis by (intro nth_equalityI) auto
qed






lemma mset_filter_split:
  "mset (filter (\<lambda>u. u \<noteq> a) xs) + mset (filter (\<lambda>u. u = a) xs) = mset xs"
  by (induction xs) auto

lemma recruit_conserve:
  assumes "recruit l ms = (l', ms')"
  shows "\<exists>consumed skipped. ms = consumed @ ms' \<and>
           mset (crew l') + mset skipped = mset (crew l) + mset (map userId consumed) \<and>
           set skipped \<subseteq> {userId l} \<inter> userId ` set consumed"
proof -
  from recruit_spec[OF assms] obtain seg where
    a: "ms = seg @ ms'" and
    b: "crew l' = crew l @ filter (\<lambda>u. u \<noteq> userId l) (map userId seg)" by auto
  let ?sk = "filter (\<lambda>u. u = userId l) (map userId seg)"
  have "mset (crew l') + mset ?sk = mset (crew l) + mset (map userId seg)"
    unfolding b using mset_filter_split[of "userId l" "map userId seg"] by simp
  moreover have "set ?sk \<subseteq> {userId l} \<inter> userId ` set seg" by auto
  ultimately show ?thesis using a by blast
qed

lemma sweep_conserve:
  "sweep ls ms = (ls', ms') \<Longrightarrow>
   \<exists>consumed skipped. ms = consumed @ ms' \<and>
     mset (concat (map crew ls')) + mset skipped =
       mset (concat (map crew ls)) + mset (map userId consumed) \<and>
     set skipped \<subseteq> userId ` set ls \<inter> userId ` set consumed"
proof (induction ls arbitrary: ms ls' ms')
  case Nil
  then show ?case by (intro exI[of _ "[]"]) simp
next
  case (Cons a ls)
  obtain l1 ms1 where r: "recruit a ms = (l1, ms1)" by (cases "recruit a ms")
  obtain ls2 ms2 where s: "sweep ls ms1 = (ls2, ms2)" by (cases "sweep ls ms1")
  from Cons.prems r s have eq: "ls' = l1 # ls2" "ms' = ms2" by auto
  from recruit_conserve[OF r] obtain c1 k1 where 1:
    "ms = c1 @ ms1" "mset (crew l1) + mset k1 = mset (crew a) + mset (map userId c1)"
    "set k1 \<subseteq> {userId a} \<inter> userId ` set c1" by blast
  from Cons.IH[OF s] obtain c2 k2 where 2:
    "ms1 = c2 @ ms2"
    "mset (concat (map crew ls2)) + mset k2 =
       mset (concat (map crew ls)) + mset (map userId c2)"
    "set k2 \<subseteq> userId ` set ls \<inter> userId ` set c2" by blast
  have m: "mset (concat (map crew (l1 # ls2))) + mset (k1 @ k2) =
       mset (concat (map crew (a # ls))) + mset (map userId (c1 @ c2))"
  proof -
    have "mset (concat (map crew (l1 # ls2))) + mset (k1 @ k2) =
        (mset (crew l1) + mset k1) + (mset (concat (map crew ls2)) + mset k2)" by simp
    also have "\<dots> = (mset (crew a) + mset (map userId c1)) +
        (mset (concat (map crew ls)) + mset (map userId c2))" by (simp only: 1(2) 2(2))
    also have "\<dots> = mset (concat (map crew (a # ls))) + mset (map userId (c1 @ c2))" by simp
    finally show ?thesis .
  qed
  have k: "set (k1 @ k2) \<subseteq> userId ` set (a # ls) \<inter> userId ` set (c1 @ c2)"
    using 1(3) 2(3) by auto
  have c: "ms = (c1 @ c2) @ ms2" using 1(1) 2(1) by simp
  show ?case unfolding eq using c m k by blast
qed


lemma eval_tryMatching:
  "tryMatching out w = updateQueuesInRedis out (afterSweep 0 w)"
  by (simp add: tryMatching_def loop_sweep)










section \<open>Store, handlers and runs\<close>

text \<open>
  Claim C9 fails as stated: when the second \<open>set\<close> throws, Redis holds the new leader
  queue next to the old member queue.
\<close>

theorem C9_partial_write_counterexample:
  "redisLeaders (updateQueuesInRedis MembersSetThrows
      \<lparr>teamLeaders = [newLeader ''L'' 1], teamMembers = [newMember ''M''],
       redisLeaders = Some [], redisMembers = Some [], history = []\<rparr>) =
     Some [newLeader ''L'' 1] \<and>
   redisMembers (updateQueuesInRedis MembersSetThrows
      \<lparr>teamLeaders = [newLeader ''L'' 1], teamMembers = [newMember ''M''],
       redisLeaders = Some [], redisMembers = Some [], history = []\<rparr>) = Some []"
  by (simp add: updateQueuesInRedis_def emit_def)

text \<open>
  Claim C9, amended. A save leaves the in-memory queues alone and writes the two keys one
  after the other, leaders first. If both writes succeed the stored pair is the whole
  queue state; if the second throws, the new leaders are stored beside the old members;
  if the first throws, nothing is stored.
\<close>

theorem C9_two_writes:
  "teamLeaders (updateQueuesInRedis out w) = teamLeaders w \<and>
   teamMembers (updateQueuesInRedis out w) = teamMembers w \<and>
   (out = BothSetsOk \<longrightarrow>
      redisLeaders (updateQueuesInRedis out w) = Some (teamLeaders w) \<and>
      redisMembers (updateQueuesInRedis out w) = Some (teamMembers w)) \<and>
   (out = MembersSetThrows \<longrightarrow>
      redisLeaders (updateQueuesInRedis out w) = Some (teamLeaders w) \<and>
      redisMembers (updateQueuesInRedis out w) = redisMembers w) \<and>
   (out = LeadersSetThrows \<longrightarrow>
      redisLeaders (updateQueuesInRedis out w) = redisLeaders w \<and>
      redisMembers (updateQueuesInRedis out w) = redisMembers w)"
  by (cases out) (simp_all add: updateQueuesInRedis_def emit_def)

theorem C9_two_writes_witness:
  "redisLeaders (updateQueuesInRedis BothSetsOk (queues [newLeader ''L'' 1] [newMember ''M''])) =
     Some [newLeader ''L'' 1] \<and>
   redisMembers (updateQueuesInRedis BothSetsOk (queues [newLeader ''L'' 1] [newMember ''M''])) =
     Some [newMember ''M''] \<and>
   redisLeaders (updateQueuesInRedis MembersSetThrows (queues [newLeader ''L'' 1] [newMember ''M''])) =
     Some [newLeader ''L'' 1] \<and>
   redisMembers (updateQueuesInRedis MembersSetThrows (queues [newLeader ''L'' 1] [newMember ''M''])) =
     None \<and>
   redisLeaders (updateQueuesInRedis LeadersSetThrows (queues [newLeader ''L'' 1] [newMember ''M''])) =
     None"
proof -
  let ?w = "queues [newLeader ''L'' 1] [newMember ''M'']"
  have q: "teamLeaders ?w = [newLeader ''L'' 1]" "teamMembers ?w = [newMember ''M'']"
    "redisLeaders ?w = None" "redisMembers ?w = None"
    by (simp_all add: queues_def)
  from C9_two_writes[of BothSetsOk ?w] C9_two_writes[of MembersSetThrows ?w]
    C9_two_writes[of LeadersSetThrows ?w]
  show ?thesis unfolding q by simp
qed

lemma tryMatching_history:
  "\<exists>es. history (tryMatching out w) = history w @ es"
proof -
  obtain swept ms' where s: "sweep (teamLeaders w) (teamMembers w) = (swept, ms')"
    by (cases "sweep (teamLeaders w) (teamMembers w)")
  show ?thesis using tryMatching_sweep(3)[OF s]
    by (simp add: tryMatching_def history_store)
qed

lemma sweep_sources:
  assumes "sweep ls ms = (ls', ms')"
  shows "set ms' \<subseteq> set ms"
    and "set (concat (map crew ls')) \<subseteq> set (concat (map crew ls)) \<union> userId ` set ms"
proof -
  from sweep_conserve[OF assms] obtain consumed skipped where c:
    "ms = consumed @ ms'"
    "mset (concat (map crew ls')) + mset skipped =
       mset (concat (map crew ls)) + mset (map userId consumed)" by blast
  show "set ms' \<subseteq> set ms" unfolding c(1) by auto
  have "set_mset (mset (concat (map crew ls')) + mset skipped) =
      set_mset (mset (concat (map crew ls)) + mset (map userId consumed))"
    using c(2) by simp
  then have "set (concat (map crew ls')) \<union> set skipped =
      set (concat (map crew ls)) \<union> userId ` set consumed" by simp
  then show "set (concat (map crew ls')) \<subseteq> set (concat (map crew ls)) \<union> userId ` set ms"
    unfolding c(1) by auto
qed

lemma emit_fields [simp]:
  "teamLeaders (emit es w) = teamLeaders w"
  "teamMembers (emit es w) = teamMembers w"
  "redisLeaders (emit es w) = redisLeaders w"
  "redisMembers (emit es w) = redisMembers w"
  "history (emit es w) = history w @ es"
  by (simp_all add: emit_def)

lemma leaveLeaderRole_fields [simp]:
  "teamLeaders (leaveLeaderRole now u w) = filter (\<lambda>entry. userId entry \<noteq> u) (teamLeaders w)"
  "teamMembers (leaveLeaderRole now u w) = teamMembers w @ [\<lparr>userId = u, timestamp = now\<rparr>]"
  "history (leaveLeaderRole now u w) = history w"
  by (simp_all add: leaveLeaderRole_def pushMember_def)

lemma handedOver_history_store [simp]:
  "handedOver (history (updateQueuesInRedis out w)) = handedOver (history w)"
  by (simp add: history_store)

lemma tryMatching_after:
  assumes "sweep (teamLeaders w) (teamMembers w) = (swept, ms')"
  shows "handedOver (history (tryMatching out w)) =
           handedOver (history w) @ filter (\<lambda>l. additionalNeeded l = 0) swept"
  using tryMatching_sweep(3)[OF assms] by (simp add: tryMatching_def)

text \<open>
  Claim C10. The \<open>switch_to_team\<close> button drops every leader entry of the user, crew
  included, keeps all other leader entries as they are, and appends a fresh member entry
  with the current time at the tail of the member queue; this is the state written to
  the store before matching. After the matching that follows, the user leads no entry,
  queued or handed over, no member entry exists that was not queued before apart from
  the fresh one, and crews hold only ids from the other leaders' crews, from the old
  member queue, or the user's own: the abandoned crew is returned nowhere.
\<close>

theorem C10_switch_to_member:
  "teamLeaders (leaveLeaderRole now u w) = filter (\<lambda>entry. userId entry \<noteq> u) (teamLeaders w) \<and>
   teamMembers (leaveLeaderRole now u w) = teamMembers w @ [\<lparr>userId = u, timestamp = now\<rparr>] \<and>
   (o1 = BothSetsOk \<longrightarrow>
      (\<exists>es. history (switch_to_team o1 o2 now u w) =
         history w @
         [RedisSetLeaders (filter (\<lambda>entry. userId entry \<noteq> u) (teamLeaders w)),
          RedisSetMembers (teamMembers w @ [\<lparr>userId = u, timestamp = now\<rparr>]),
          Reply u ''allegiance switched''] @ es)) \<and>
   (\<exists>done. handedOver (history (switch_to_team o1 o2 now u w)) = handedOver (history w) @ done \<and>
      u \<notin> userId ` set (teamLeaders (switch_to_team o1 o2 now u w) @ done) \<and>
      set (concat (map crew (teamLeaders (switch_to_team o1 o2 now u w) @ done))) \<subseteq>
        set (concat (map crew (filter (\<lambda>entry. userId entry \<noteq> u) (teamLeaders w)))) \<union>
        userId ` set (teamMembers w) \<union> {u}) \<and>
   set (teamMembers (switch_to_team o1 o2 now u w)) \<subseteq>
     set (teamMembers w) \<union> {\<lparr>userId = u, timestamp = now\<rparr>}"
proof -
  let ?w1 = "leaveLeaderRole now u w"
  let ?w2 = "emit [Reply u ''allegiance switched''] (updateQueuesInRedis o1 ?w1)"
  let ?w' = "switch_to_team o1 o2 now u w"
  let ?ls = "filter (\<lambda>entry. userId entry \<noteq> u) (teamLeaders w)"
  let ?ms = "teamMembers w @ [\<lparr>userId = u, timestamp = now\<rparr>]"
  have w': "?w' = tryMatching o2 ?w2" by (simp add: switch_to_team_def)
  have l2: "teamLeaders ?w2 = ?ls" and m2: "teamMembers ?w2 = ?ms" by simp_all
  obtain swept ms' where s: "sweep ?ls ?ms = (swept, ms')" by (cases "sweep ?ls ?ms")
  have s2: "sweep (teamLeaders ?w2) (teamMembers ?w2) = (swept, ms')" using s by simp
  have q: "teamLeaders ?w' = filter (\<lambda>l. additionalNeeded l \<noteq> 0) swept"
    and m: "teamMembers ?w' = ms'"
    unfolding w' using tryMatching_sweep(1,2)[OF s2] by simp_all
  let ?done = "filter (\<lambda>l. additionalNeeded l = 0) swept"
  have d: "handedOver (history ?w') = handedOver (history w) @ ?done"
    unfolding w' using tryMatching_after[OF s2] by simp
  have ids: "map userId swept = map userId ?ls" by (rule sweep_ids[OF s])
  have "userId ` set swept = userId ` set ?ls"
    using arg_cong[OF ids, of set] by simp
  then have nu: "u \<notin> userId ` set swept" by auto
  have 1: "u \<notin> userId ` set (teamLeaders ?w' @ ?done)"
    unfolding q using nu by auto
  have "set (concat (map crew swept)) \<subseteq> set (concat (map crew ?ls)) \<union> userId ` set ?ms"
    by (rule sweep_sources(2)[OF s])
  then have 2: "set (concat (map crew (teamLeaders ?w' @ ?done))) \<subseteq>
        set (concat (map crew ?ls)) \<union> userId ` set (teamMembers w) \<union> {u}"
    unfolding q by auto
  have 3: "set (teamMembers ?w') \<subseteq> set (teamMembers w) \<union> {\<lparr>userId = u, timestamp = now\<rparr>}"
    unfolding m using sweep_sources(1)[OF s] by auto
  have 4: "o1 = BothSetsOk \<longrightarrow>
      (\<exists>es. history ?w' =
         history w @ [RedisSetLeaders ?ls, RedisSetMembers ?ms,
          Reply u ''allegiance switched''] @ es)"
  proof
    assume o: "o1 = BothSetsOk"
    from tryMatching_history[of o2 ?w2] obtain es where
      "history ?w' = history ?w2 @ es" unfolding w' by blast
    then show "\<exists>es. history ?w' =
         history w @ [RedisSetLeaders ?ls, RedisSetMembers ?ms,
          Reply u ''allegiance switched''] @ es"
      using o by (simp add: history_store)
  qed
  show ?thesis using 1 2 3 4 d by (simp only: leaveLeaderRole_fields simp_thms) blast
qed

theorem C10_switch_to_member_witness:
  "(\<exists>es. history (switch_to_team BothSetsOk BothSetsOk 5 ''L'' partialTeam) =
      [RedisSetLeaders [], RedisSetMembers [\<lparr>userId = ''L'', timestamp = 5\<rparr>],
       Reply ''L'' ''allegiance switched''] @ es) \<and>
   teamLeaders (switch_to_team BothSetsOk BothSetsOk 5 ''L'' partialTeam) = [] \<and>
   teamMembers (switch_to_team BothSetsOk BothSetsOk 5 ''L'' partialTeam) =
     [\<lparr>userId = ''L'', timestamp = 5\<rparr>]"
proof -
  have f: "teamLeaders partialTeam =
      [\<lparr>userId = ''L'', timestamp = 1, additionalNeeded = 1, crew = [''M1'']\<rparr>]"
    "teamMembers partialTeam = []" "history partialTeam = []"
    by (simp_all add: partialTeam_def queues_def)
  have a: "\<exists>es. history (switch_to_team BothSetsOk BothSetsOk 5 ''L'' partialTeam) =
      [RedisSetLeaders [], RedisSetMembers [\<lparr>userId = ''L'', timestamp = 5\<rparr>],
       Reply ''L'' ''allegiance switched''] @ es"
    using C10_switch_to_member[of 5 "''L''" partialTeam BothSetsOk BothSetsOk]
    unfolding f by simp
  have b: "teamLeaders (switch_to_team BothSetsOk BothSetsOk 5 ''L'' partialTeam) = []"
    "teamMembers (switch_to_team BothSetsOk BothSetsOk 5 ''L'' partialTeam) =
     [\<lparr>userId = ''L'', timestamp = 5\<rparr>]"
    by (simp_all add: switch_to_team_def eval_tryMatching afterSweep_def f)
  show ?thesis using a b by blast
qed

lemma parseInt_samples:
  "parseInt ''1'' = Some 1" "parseInt ''2'' = Some 2" "parseInt ''3'' = Some 3"
  "parseInt ''0'' = Some 0" "parseInt ''-1'' = Some (- 1)" "parseInt '' 12ab'' = Some 12"
  "parseInt ''abc'' = None" "parseInt '''' = None" "parseInt ''+'' = None"
  by (simp_all add: parseInt_def isWhiteSpace_def isDigit_def digitsValue_def digitValue_def)





lemma registerNeed_members [simp]:
  "teamMembers (registerNeed now u n w) = teamMembers w"
  "history (registerNeed now u n w) = history w"
  by (cases "findLeader u w"; simp add: registerNeed_def)+




lemmas handler_eval =
  interactionCreate_def handleLookingForTeam_def handleLookingForMembersStart_def
  handleMemberCountSelect_def switch_to_leader_def switch_to_team_def adminCommand_def
  findLeader_def findMember_def pushMember_def registerNeed_def selectedNumber_def
  parseInt_samples start_def eval_tryMatching afterSweep_def updateQueuesInRedis_def emit_def

text \<open>
  The handlers that enqueue a member, leave the leader role, or register a need end
  with \<open>tryMatching\<close>, whose last step writes the store: if that write succeeds, Redis
  holds the queues as the sweep left them.
\<close>

lemma tryMatching_stored: "stored (tryMatching BothSetsOk w)"
  by (simp add: stored_def tryMatching_def updateQueuesInRedis_def emit_def)

lemma mutating_handlers_stored:
  "findLeader u w = None \<Longrightarrow> findMember u w = None \<Longrightarrow>
     stored (handleLookingForTeam o1 BothSetsOk now u w)"
  "stored (switch_to_team o1 BothSetsOk now u w)"
  "selectedNumber vs = Some n \<Longrightarrow> stored (handleMemberCountSelect o1 BothSetsOk now u vs w)"
  by (simp_all add: handleLookingForTeam_def switch_to_team_def handleMemberCountSelect_def
      tryMatching_stored)

text \<open>
  Claim C5, evaluated on a run. The \<open>switch_to_leader\<close> button removes the member entry in
  memory only: no store write and no matching follows, Redis still holds the entry, and
  reloading the queues brings the member back.
\<close>

theorem C5_switch_to_leader_not_stored:
  "teamMembers (run ''admin'' (take 2 abandonedSwitchRun) start) =
     [\<lparr>userId = ''U'', timestamp = 1\<rparr>] \<and>
   redisMembers (run ''admin'' (take 2 abandonedSwitchRun) start) =
     Some [\<lparr>userId = ''U'', timestamp = 1\<rparr>] \<and>
   teamMembers (run ''admin'' abandonedSwitchRun start) = [] \<and>
   redisMembers (run ''admin'' abandonedSwitchRun start) =
     Some [\<lparr>userId = ''U'', timestamp = 1\<rparr>] \<and>
   history (run ''admin'' abandonedSwitchRun start) =
     history (run ''admin'' (take 2 abandonedSwitchRun) start) @
     [Reply ''U'' ''team leader setup''] \<and>
   teamMembers (loadQueues (run ''admin'' abandonedSwitchRun start)) =
     [\<lparr>userId = ''U'', timestamp = 1\<rparr>] \<and>
   stored (run ''admin'' (take 2 abandonedSwitchRun) start) \<and>
   \<not> stored (run ''admin'' abandonedSwitchRun start)"
  by (simp add: abandonedSwitchRun_def handler_eval loadQueues_def stored_def)

section \<open>Single affiliation over runs\<close>




lemma settled_emit [simp]: "settled (emit es w) = settled w"
  by (simp add: settled_def)



lemma pushMember_leaders [simp]:
  "teamLeaders (pushMember u now w) = teamLeaders w"
  by (simp add: pushMember_def)

lemma setNeed_ids [simp]: "map userId (setNeed u n ls) = map userId ls"
  by (induction ls) auto










section \<open>Leader ids stay pairwise different\<close>

text \<open>
  A leader entry is appended only for a user without one, and nothing else adds entries:
  whatever the inputs, the leader queue never holds two entries of one user.
\<close>

lemma tryMatching_distinct:
  assumes "distinct (map userId (teamLeaders w))"
  shows "distinct (map userId (teamLeaders (tryMatching out w)))"
proof -
  obtain swept ms' where s: "sweep (teamLeaders w) (teamMembers w) = (swept, ms')"
    by (cases "sweep (teamLeaders w) (teamMembers w)")
  have "distinct (map userId swept)" using assms sweep_ids[OF s] by simp
  then show ?thesis unfolding tryMatching_sweep(1)[OF s] by (rule distinct_map_filter)
qed

lemma registerNeed_distinct:
  assumes d: "distinct (map userId (teamLeaders w))"
  shows "distinct (map userId (teamLeaders (registerNeed now u n w)))"
proof (cases "findLeader u w")
  case None
  then have "u \<notin> userId ` set (teamLeaders w)"
    by (auto simp: findLeader_def find_None_iff)
  then show ?thesis using d None by (simp add: registerNeed_def)
next
  case (Some e)
  then show ?thesis using d by (simp add: registerNeed_def)
qed

lemma interaction_distinct:
  assumes d: "distinct (map userId (teamLeaders w))"
  shows "distinct (map userId (teamLeaders (interactionCreate admin o1 o2 now i w)))"
proof (cases i)
  case (Button customId u)
  have 1: "distinct (map userId (teamLeaders (handleLookingForTeam o1 o2 now u w)))"
    using d by (auto simp: handleLookingForTeam_def intro!: tryMatching_distinct
        split: option.splits)
  have 2: "distinct (map userId (teamLeaders (handleLookingForMembersStart u w)))"
    using d by (simp add: handleLookingForMembersStart_def split: option.splits)
  have 3: "distinct (map userId (teamLeaders (switch_to_team o1 o2 now u w)))"
    unfolding switch_to_team_def using d
    by (intro tryMatching_distinct) (simp add: distinct_map_filter)
  have 4: "distinct (map userId (teamLeaders (switch_to_leader u w)))"
    using d by (simp add: switch_to_leader_def)
  show ?thesis using Button d 1 2 3 4 by (simp add: interactionCreate_def)
next
  case (Command name sub u)
  have "distinct (map userId (teamLeaders (adminCommand admin o1 o2 u sub w)))"
    using d tryMatching_distinct[OF d, of o2] by (simp add: adminCommand_def)
  then show ?thesis using Command d by (simp add: interactionCreate_def)
next
  case (SelectMenu customId u vs)
  have "distinct (map userId (teamLeaders (handleMemberCountSelect o1 o2 now u vs w)))"
  proof (cases "selectedNumber vs")
    case None then show ?thesis using d by (simp add: handleMemberCountSelect_def)
  next
    case (Some n)
    have "distinct (map userId (teamLeaders (tryMatching o2
            (emit [Reply u ''you are now a team leader.'']
               (updateQueuesInRedis o1 (registerNeed now u n w))))))"
      using registerNeed_distinct[OF d] by (intro tryMatching_distinct) simp
    then show ?thesis using Some by (simp add: handleMemberCountSelect_def)
  qed
  then show ?thesis using SelectMenu d by (simp add: interactionCreate_def)
qed

lemma run_leaders_distinct:
  "distinct (map userId (teamLeaders w)) \<Longrightarrow>
   distinct (map userId (teamLeaders (run admin inputs w)))"
proof (induction inputs arbitrary: w)
  case Nil
  then show ?case by simp
next
  case (Cons x inputs)
  obtain o1 o2 now i where x: "x = (o1, o2, now, i)" by (cases x)
  show ?case unfolding x using Cons.IH[OF interaction_distinct[OF Cons.prems]] by simp
qed

end
